theory Spec2Isabelle
  imports Main "HOL-Library.AList" "HOL-Library.Sublist"
begin

section \<open>JavaScript values used by the session core\<close>

text \<open>
  Identifiers, tool names and messages are JavaScript strings. A payload whose shape the
  code never inspects (a tool input, an authorization rule, a pagination or message body)
  is kept as its JSON text. A JavaScript \<open>Map\<close> and the string-keyed objects used as
  dictionaries are association lists: \<open>Map.set\<close> and the object spread
  \<open>{...o, [k]: v}\<close> are \<^const>\<open>AList.update\<close>, \<open>Map.delete\<close> and \<open>delete o[k]\<close> are
  \<^const>\<open>AList.delete\<close>, and a lookup of an own key is \<^const>\<open>map_of\<close>. A \<open>Map\<close> iterates in
  insertion order; of an object only the number of its keys and the values under them are
  used.
\<close>

type_synonym json = string

text \<open>The empty string is the only falsy string; \<open>null\<close> and \<open>undefined\<close> are \<open>None\<close>.\<close>

definition truthy :: "string \<Rightarrow> bool" where
  "truthy s = (s \<noteq> [])"

definition truthy_opt :: "string option \<Rightarrow> bool" where
  "truthy_opt x = (case x of None \<Rightarrow> False | Some s \<Rightarrow> truthy s)"

text \<open>
  An object literal inherits from \<open>Object.prototype\<close>. The operator \<open>in\<close> and a plain
  property read follow that chain, so they also see the names below; \<open>Object.keys\<close>,
  the spread and \<open>delete\<close> work on own properties only. A property read under one of
  these names that is not an own key yields a function (or the prototype itself), which is
  truthy and has none of the fields of a cache entry.
\<close>

definition object_prototype_names :: "string list" where
  "object_prototype_names =
     [''constructor'', ''__defineGetter__'', ''__defineSetter__'', ''hasOwnProperty'',
      ''__lookupGetter__'', ''__lookupSetter__'', ''isPrototypeOf'', ''propertyIsEnumerable'',
      ''toString'', ''valueOf'', ''__proto__'', ''toLocaleString'']"

definition in_object :: "string \<Rightarrow> (string \<times> 'v) list \<Rightarrow> bool" where
  "in_object k obj = (map_of obj k \<noteq> None \<or> k \<in> set object_prototype_names)"


section \<open>Permission arbiter (server/claude-sdk.js)\<close>

text \<open>The \<open>PermissionResult\<close> object handed back to the SDK.\<close>

datatype permission_result =
    Allow json "json list"
  | Deny string bool

text \<open>
  A call of the \<open>resolve\<close> or of the \<open>reject\<close> function of the promise created for a
  request: \<open>resolve(result)\<close> or \<open>reject(new Error(text))\<close>.
\<close>

datatype settlement = Resolved permission_result | Rejected string

text \<open>
  An entry of \<open>pendingPermissionRequests\<close>: the metadata and the time of registration.
  The two callbacks stored with it belong to the promise of the request; calling one is
  recorded in \<open>settled\<close> under the request id the entry was stored under.
\<close>

record pending_request =
  toolName :: string
  input :: json
  suggestions :: "json list option"
  toolUseID :: string
  timestamp :: int

text \<open>
  The messages the server writes to a WebSocket: the \<open>permission-request\<close> message
  (request id, tool name, tool input, tool-use id, suggestions, timestamp) and the
  \<open>session-created\<close> message, whose only field besides its type is the session id.
\<close>

datatype ws_message =
    PermissionRequestMsg string string json string "json list" int
  | SessionCreated string

text \<open>
  The arbiter's state: the map of pending requests, the calls made to the promises'
  callbacks, and what was sent on which connection (a connection is a number).
\<close>

record arbiter =
  pendingPermissionRequests :: "(string \<times> pending_request) list"
  settled :: "(string \<times> settlement) list"
  sent :: "(nat \<times> ws_message) list"

definition registerPermissionRequest ::
  "string \<Rightarrow> string \<Rightarrow> json \<Rightarrow> json list option \<Rightarrow> string \<Rightarrow> int \<Rightarrow> arbiter \<Rightarrow> arbiter" where
  "registerPermissionRequest requestId tool inp sugg tuid now st =
     st\<lparr>pendingPermissionRequests :=
          AList.update requestId
            \<lparr>toolName = tool, input = inp, suggestions = sugg, toolUseID = tuid, timestamp = now\<rparr>
            (pendingPermissionRequests st)\<rparr>"

text \<open>The user's response as it arrives from the client; every field but \<open>behavior\<close> is optional.\<close>

record response =
  behavior :: string
  message :: "string option"
  updatedPermissions :: "json list option"
  interrupt :: "bool option"

definition resolvePermissionRequest :: "string \<Rightarrow> response \<Rightarrow> arbiter \<Rightarrow> bool \<times> arbiter" where
  "resolvePermissionRequest requestId resp st =
     (case map_of (pendingPermissionRequests st) requestId of
        None \<Rightarrow> (False, st)
      | Some pending \<Rightarrow>
          let permissionResult =
                (if behavior resp = ''allow''
                 then Allow (input pending)
                        (case updatedPermissions resp of Some u \<Rightarrow> u | None \<Rightarrow> [])
                 else Deny (if truthy_opt (message resp) then the (message resp)
                            else ''User denied the request'')
                        (interrupt resp \<noteq> Some False))
          in (True,
              st\<lparr>pendingPermissionRequests := AList.delete requestId (pendingPermissionRequests st),
                 settled := settled st @ [(requestId, Resolved permissionResult)]\<rparr>))"

text \<open>
  The sweep walks the entries of the map in insertion order; an entry deleted during the
  walk is not visited again and the others all are.
\<close>

fun cleanup_loop :: "int \<Rightarrow> int \<Rightarrow> (string \<times> pending_request) list \<Rightarrow> arbiter \<Rightarrow> arbiter" where
  "cleanup_loop now timeoutMs [] st = st"
| "cleanup_loop now timeoutMs ((requestId, request) # entries) st =
     cleanup_loop now timeoutMs entries
       (if now - timestamp request > timeoutMs
        then st\<lparr>settled := settled st @
                    [(requestId, Resolved (Deny ''Permission request timed out'' False))],
                 pendingPermissionRequests := AList.delete requestId (pendingPermissionRequests st)\<rparr>
        else st)"

definition cleanupTimedOutPermissions :: "int \<Rightarrow> int \<Rightarrow> arbiter \<Rightarrow> arbiter" where
  "cleanupTimedOutPermissions timeoutMs now st =
     cleanup_loop now timeoutMs (pendingPermissionRequests st) st"

definition default_timeoutMs :: int where
  "default_timeoutMs = 300000"

text \<open>The settlements a step added to the log.\<close>

definition emitted :: "arbiter \<Rightarrow> arbiter \<Rightarrow> (string \<times> settlement) list" where
  "emitted st st' = drop (length (settled st)) (settled st')"

text \<open>The test of the sweep on one entry.\<close>

definition expired :: "int \<Rightarrow> int \<Rightarrow> string \<times> pending_request \<Rightarrow> bool" where
  "expired now timeoutMs e = (now - timestamp (snd e) > timeoutMs)"

text \<open>
  The callback built by \<open>createCanUseTool(ws)\<close>. The request id comes from
  \<open>generatePermissionRequestId\<close> (clock and random digits) and is a parameter, as are the
  two readings of the clock. The callback registers the request and sends it to the
  client; it looks at no other pending request.
\<close>

definition createCanUseTool ::
  "nat \<Rightarrow> string \<Rightarrow> int \<Rightarrow> int \<Rightarrow> string \<Rightarrow> json \<Rightarrow> json list option \<Rightarrow> string \<Rightarrow> arbiter \<Rightarrow> arbiter" where
  "createCanUseTool ws requestId now sentAt tool inp sugg tuid st =
     (let st1 = registerPermissionRequest requestId tool inp sugg tuid now st
      in st1\<lparr>sent := sent st1 @
            [(ws, PermissionRequestMsg requestId tool inp tuid
                    (case sugg of Some s \<Rightarrow> s | None \<Rightarrow> []) sentAt)]\<rparr>)"

text \<open>The listener installed on the SDK's abort signal for one request.\<close>

definition abort_listener :: "string \<Rightarrow> arbiter \<Rightarrow> arbiter" where
  "abort_listener requestId st =
     st\<lparr>pendingPermissionRequests := AList.delete requestId (pendingPermissionRequests st),
        settled := settled st @ [(requestId, Rejected ''Permission request aborted'')]\<rparr>"

text \<open>
  A query is one run of \<open>queryClaudeSDK\<close> and carries one session; it builds its own
  callback with \<open>createCanUseTool(ws)\<close>, and several queries may share a connection. The
  arbiter itself records neither the query nor the session. What reaches it is: a call by
  the SDK of the callback of one query (the query is a number), a response of the user
  passed to \<open>resolvePermissionRequest\<close>, the abort signal of one request, and the sweep.
\<close>

datatype arbiter_event =
    CanUseTool nat nat string int int string json "json list option" string
  | PermissionResponse string response
  | AbortSignal string
  | TimeoutSweep int int

fun arbiter_step :: "arbiter_event \<Rightarrow> arbiter \<Rightarrow> arbiter" where
  "arbiter_step (CanUseTool query ws requestId now sentAt tool inp sugg tuid) st =
     createCanUseTool ws requestId now sentAt tool inp sugg tuid st"
| "arbiter_step (PermissionResponse requestId resp) st =
     snd (resolvePermissionRequest requestId resp st)"
| "arbiter_step (AbortSignal requestId) st = abort_listener requestId st"
| "arbiter_step (TimeoutSweep timeoutMs now) st = cleanupTimedOutPermissions timeoutMs now st"

definition arbiter_init :: arbiter where
  "arbiter_init = \<lparr>pendingPermissionRequests = [], settled = [], sent = []\<rparr>"

definition arbiter_run :: "arbiter_event list \<Rightarrow> arbiter" where
  "arbiter_run evs = fold arbiter_step evs arbiter_init"

text \<open>
  The requests of one session: the ids registered by the calls of its query's callback.
  Those still in the map after the events are its unresolved requests.
\<close>

fun requests_of_query :: "nat \<Rightarrow> arbiter_event list \<Rightarrow> string list" where
  "requests_of_query q [] = []"
| "requests_of_query q (CanUseTool query ws requestId now sentAt tool inp sugg tuid # evs) =
     (if query = q then requestId # requests_of_query q evs else requests_of_query q evs)"
| "requests_of_query q (PermissionResponse requestId resp # evs) = requests_of_query q evs"
| "requests_of_query q (AbortSignal requestId # evs) = requests_of_query q evs"
| "requests_of_query q (TimeoutSweep timeoutMs now # evs) = requests_of_query q evs"

definition unresolved_of_session :: "nat \<Rightarrow> arbiter_event list \<Rightarrow> string list" where
  "unresolved_of_session q evs =
     filter (\<lambda>requestId. map_of (pendingPermissionRequests (arbiter_run evs)) requestId \<noteq> None)
       (requests_of_query q evs)"

section \<open>Active sessions and abort (server/claude-sdk.js)\<close>

record session =
  status :: string
  startTime :: int
  tempImagePaths :: "string list"
  tempDir :: "string option"

text \<open>
  The server's session table, the paths that exist on disk, and the sessions whose query
  instance was asked to interrupt.
\<close>

record server =
  activeSessions :: "(string \<times> session) list"
  disk :: "string list"
  interrupts :: "string list"

definition addSession :: "string \<Rightarrow> string list \<Rightarrow> string option \<Rightarrow> int \<Rightarrow> server \<Rightarrow> server" where
  "addSession sessionId paths dir now sv =
     sv\<lparr>activeSessions :=
          AList.update sessionId
            \<lparr>status = ''active'', startTime = now, tempImagePaths = paths, tempDir = dir\<rparr>
            (activeSessions sv)\<rparr>"

definition removeSession :: "string \<Rightarrow> server \<Rightarrow> server" where
  "removeSession sessionId sv =
     sv\<lparr>activeSessions := AList.delete sessionId (activeSessions sv)\<rparr>"

definition getSession :: "string \<Rightarrow> server \<Rightarrow> session option" where
  "getSession sessionId sv = map_of (activeSessions sv) sessionId"

text \<open>
  \<open>fs.unlink\<close> removes one path and \<open>fs.rm\<close> with \<open>recursive\<close> and \<open>force\<close> removes a
  directory with everything below it; a failure of either is caught and logged.
\<close>

definition unlink :: "string \<Rightarrow> string list \<Rightarrow> string list" where
  "unlink p paths = removeAll p paths"

definition rm_recursive :: "string \<Rightarrow> string list \<Rightarrow> string list" where
  "rm_recursive dir paths = filter (\<lambda>p. \<not> (p = dir \<or> prefix (dir @ ''/'') p)) paths"

definition cleanupTempFiles :: "string list \<Rightarrow> string option \<Rightarrow> string list \<Rightarrow> string list" where
  "cleanupTempFiles paths dir fs =
     (if paths = [] then fs
      else let fs1 = fold unlink paths fs
           in if truthy_opt dir then rm_recursive (the dir) fs1 else fs1)"

text \<open>What \<open>await session.instance.interrupt()\<close> does is the SDK's business: it returns or throws.\<close>

datatype interrupt_outcome = InterruptReturns | InterruptThrows

definition abortClaudeSDKSession :: "string \<Rightarrow> interrupt_outcome \<Rightarrow> server \<Rightarrow> bool \<times> server" where
  "abortClaudeSDKSession sessionId outcome sv =
     (case getSession sessionId sv of
        None \<Rightarrow> (False, sv)
      | Some s \<Rightarrow>
          let sv1 = sv\<lparr>interrupts := interrupts sv @ [sessionId]\<rparr>
          in (case outcome of
                InterruptThrows \<Rightarrow> (False, sv1)
              | InterruptReturns \<Rightarrow>
                  let sv2 = sv1\<lparr>activeSessions :=
                                  AList.update sessionId (s\<lparr>status := ''aborted''\<rparr>) (activeSessions sv1)\<rparr>;
                      sv3 = sv2\<lparr>disk := cleanupTempFiles (tempImagePaths s) (tempDir s) (disk sv2)\<rparr>
                  in (True, removeSession sessionId sv3)))"

text \<open>
  The \<open>catch\<close> block of \<open>queryClaudeSDK\<close>: when the query fails, the captured session
  is removed and the temporary files are deleted; then the error is sent to the client and
  thrown again.
\<close>

definition queryClaudeSDK_catch ::
  "string option \<Rightarrow> string list \<Rightarrow> string option \<Rightarrow> server \<Rightarrow> server" where
  "queryClaudeSDK_catch captured paths dir sv =
     (let sv1 = (if truthy_opt captured then removeSession (the captured) sv else sv)
      in sv1\<lparr>disk := cleanupTempFiles paths dir (disk sv1)\<rparr>)"

text \<open>
  The head of the streaming loop of \<open>queryClaudeSDK\<close>: the first message that carries a
  session id fixes \<open>capturedSessionId\<close> and enters the session table, and a new session
  (no \<open>sessionId\<close> option) announces it once with \<open>session-created\<close>. The function
  returns the messages sent.
\<close>

record query_vars =
  option_sessionId :: "string option"
  capturedSessionId :: "string option"
  sessionCreatedSent :: bool

definition capture_session_id ::
  "string option \<Rightarrow> string list \<Rightarrow> string option \<Rightarrow> int \<Rightarrow> query_vars \<times> server
     \<Rightarrow> (query_vars \<times> server) \<times> ws_message list" where
  "capture_session_id message_session_id paths dir now qs =
     (case qs of (q, sv) \<Rightarrow>
        if truthy_opt message_session_id \<and> \<not> truthy_opt (capturedSessionId q)
        then let q1 = q\<lparr>capturedSessionId := message_session_id\<rparr>;
                 sv1 = addSession (the message_session_id) paths dir now sv
             in if \<not> truthy_opt (option_sessionId q) \<and> \<not> sessionCreatedSent q
                then ((q1\<lparr>sessionCreatedSent := True\<rparr>, sv1), [SessionCreated (the message_session_id)])
                else ((q1, sv1), [])
        else ((q, sv), []))"

section \<open>Session protection and message routing in the client\<close>

text \<open>
  \<open>activeSessions\<close> of \<open>App.jsx\<close> is a JavaScript \<open>Set\<close> of session ids: a list without
  repetition in insertion order. \<open>Set.add\<close> appends a new element and leaves a present one
  where it is; \<open>Set.delete\<close> removes it.
\<close>

definition set_add :: "string \<Rightarrow> string list \<Rightarrow> string list" where
  "set_add x xs = (if x \<in> set xs then xs else xs @ [x])"

definition is_temporary :: "string \<Rightarrow> bool" where
  "is_temporary sid = prefix ''new-session-'' sid"

text \<open>The loop of \<open>replaceTemporarySession\<close>: the first temporary id in iteration order.\<close>

fun first_temporary :: "string list \<Rightarrow> string option" where
  "first_temporary [] = None"
| "first_temporary (sid # rest) = (if is_temporary sid then Some sid else first_temporary rest)"

text \<open>
  \<open>replaceTemporarySession(realSessionId)\<close> returns the new set and, when a temporary id
  was deleted, the pair it logs ("Replaced temp session sid with realSessionId").
\<close>

definition replaceTemporarySession ::
  "string \<Rightarrow> string list \<Rightarrow> string list \<times> (string \<times> string) option" where
  "replaceTemporarySession realSessionId prev =
     (case first_temporary prev of
        Some sid \<Rightarrow> (set_add realSessionId (removeAll sid prev), Some (sid, realSessionId))
      | None \<Rightarrow> (set_add realSessionId prev, None))"

text \<open>
  What \<open>ChatInterface\<close> knows of the session it shows: \<open>currentSessionId\<close> (component state,
  set when the session completes) and the \<open>pendingSessionId\<close> item of \<open>sessionStorage\<close>.
\<close>

record chat_view =
  currentSessionId :: "string option"
  pendingSessionId :: "string option"

text \<open>The \<open>session-created\<close> case of the message handler, on the view and on \<open>activeSessions\<close>.\<close>

definition session_created_case ::
  "string option \<Rightarrow> chat_view \<times> string list \<Rightarrow> chat_view \<times> string list" where
  "session_created_case message_sessionId vs =
     (case vs of (v, active) \<Rightarrow>
        if truthy_opt message_sessionId \<and> \<not> truthy_opt (currentSessionId v)
        then (v\<lparr>pendingSessionId := message_sessionId\<rparr>,
              fst (replaceTemporarySession (the message_sessionId) active))
        else (v, active))"

text \<open>
  The filter at the head of the message handler. \<open>Dropped\<close> is the early \<open>return\<close>;
  \<open>Delivered\<close> means the message goes on to the \<open>switch\<close> over its type.
\<close>

datatype routing = Delivered | Dropped

definition message_filter :: "bool \<Rightarrow> string option \<Rightarrow> chat_view \<Rightarrow> routing" where
  "message_filter isGlobalMessage messageSessionId v =
     (if \<not> isGlobalMessage \<and> truthy_opt messageSessionId
      then (if truthy_opt (currentSessionId v) \<and> messageSessionId \<noteq> currentSessionId v
            then Dropped
            else if \<not> truthy_opt (currentSessionId v)
                 then (if truthy_opt (pendingSessionId v) \<and> messageSessionId \<noteq> pendingSessionId v
                       then Dropped
                       else Delivered)
                 else Delivered)
      else Delivered)"

text \<open>A displayed message; the two flags are absent (falsy) on everything but a permission request.\<close>

record chat_message =
  isPermissionRequest :: bool
  permissionResolved :: bool
  content :: json

definition unresolved_permission :: "chat_message \<Rightarrow> bool" where
  "unresolved_permission m = (isPermissionRequest m \<and> \<not> permissionResolved m)"

text \<open>
  The effect that copies the converted transcript into \<open>chatMessages\<close>: the updater passed
  to \<open>setChatMessages\<close>, run when \<open>sessionMessages\<close> is not empty.
\<close>

definition sync_chatMessages ::
  "json list \<Rightarrow> chat_message list \<Rightarrow> chat_message list \<Rightarrow> chat_message list" where
  "sync_chatMessages sessionMessages convertedMessages prev =
     (if length sessionMessages > 0
      then (let pendingRequests = filter unresolved_permission prev
            in if length pendingRequests > 0 then convertedMessages @ pendingRequests
               else convertedMessages)
      else prev)"

section \<open>Session cache\<close>

definition MAX_CACHED_SESSIONS :: nat where
  "MAX_CACHED_SESSIONS = 10"

record pagination =
  offset :: int
  hasMore :: bool
  total :: int

text \<open>The optional \<open>pagination\<close> argument: each field may be missing.\<close>

record pagination_arg =
  arg_offset :: "int option"
  arg_hasMore :: "bool option"
  arg_total :: "int option"

text \<open>\<open>x || d\<close> on a number that may be missing: zero and \<open>undefined\<close> give \<open>d\<close>.\<close>

definition num_or :: "int option \<Rightarrow> int \<Rightarrow> int" where
  "num_or x d = (case x of None \<Rightarrow> d | Some n \<Rightarrow> if n = 0 then d else n)"

definition bool_or_false :: "bool option \<Rightarrow> bool" where
  "bool_or_false x = (case x of None \<Rightarrow> False | Some b \<Rightarrow> b)"

record cache_entry =
  messages :: "json list"
  pagination :: pagination

subsection \<open>The signals store (sessionSignals.js)\<close>

text \<open>
  The three signals \<open>currentSessionId\<close>, \<open>sessionCache\<close> and \<open>accessOrder\<close>. The first and
  the last are prefixed here, as the view and the other store have fields of these names.
\<close>

record signals =
  sig_currentSessionId :: "string option"
  sessionCache :: "(string \<times> cache_entry) list"
  sig_accessOrder :: "string list"

definition signals_init :: signals where
  "signals_init = \<lparr>sig_currentSessionId = None, sessionCache = [], sig_accessOrder = []\<rparr>"

definition updateAccessOrder :: "string \<Rightarrow> signals \<Rightarrow> signals" where
  "updateAccessOrder sessionId st =
     (if \<not> truthy sessionId then st
      else st\<lparr>sig_accessOrder := filter (\<lambda>i. i \<noteq> sessionId) (sig_accessOrder st) @ [sessionId]\<rparr>)"

definition clearSession :: "string \<Rightarrow> signals \<Rightarrow> signals" where
  "clearSession sessionId st =
     st\<lparr>sessionCache := AList.delete sessionId (sessionCache st),
        sig_accessOrder := filter (\<lambda>i. i \<noteq> sessionId) (sig_accessOrder st)\<rparr>"

definition evictIfNeeded :: "signals \<Rightarrow> signals" where
  "evictIfNeeded st =
     (if length (sig_accessOrder st) \<le> MAX_CACHED_SESSIONS then st
      else (case sig_accessOrder st of
              toEvict # _ \<Rightarrow> clearSession toEvict st
            | [] \<Rightarrow> st))"

definition switchToSession :: "string \<Rightarrow> signals \<Rightarrow> signals" where
  "switchToSession sessionId st =
     updateAccessOrder sessionId (st\<lparr>sig_currentSessionId := Some sessionId\<rparr>)"

definition setSessionMessages :: "string \<Rightarrow> json list \<Rightarrow> pagination_arg \<Rightarrow> signals \<Rightarrow> signals" where
  "setSessionMessages sessionId msgs pg st =
     evictIfNeeded (updateAccessOrder sessionId
       (st\<lparr>sessionCache :=
             AList.update sessionId
               \<lparr>messages = msgs,
                pagination = \<lparr>offset = num_or (arg_offset pg) 0,
                              hasMore = bool_or_false (arg_hasMore pg),
                              total = num_or (arg_total pg) (int (length msgs))\<rparr>\<rparr>
               (sessionCache st)\<rparr>))"

text \<open>\<open>isSessionCached\<close> is \<open>sessionId in sessionCache.value\<close>.\<close>

definition isSessionCached :: "string \<Rightarrow> signals \<Rightarrow> bool" where
  "isSessionCached sessionId st = in_object sessionId (sessionCache st)"

definition currentMessages :: "signals \<Rightarrow> json list" where
  "currentMessages st =
     (case sig_currentSessionId st of
        None \<Rightarrow> []
      | Some i \<Rightarrow> if \<not> truthy i then []
                  else (case map_of (sessionCache st) i of None \<Rightarrow> [] | Some e \<Rightarrow> messages e))"

subsection \<open>The zustand store (useSessionStore)\<close>

text \<open>Its functions carry the prefix \<open>store\<close>; an entry also records \<open>lastAccess\<close>.\<close>

record store_entry = cache_entry +
  lastAccess :: int

record session_store =
  sessionData :: "(string \<times> store_entry) list"
  viewingSessionId :: "string option"
  accessOrder :: "string list"

definition store_init :: session_store where
  "store_init = \<lparr>sessionData = [], viewingSessionId = None, accessOrder = []\<rparr>"

definition store_updateAccessOrder :: "string \<Rightarrow> session_store \<Rightarrow> session_store" where
  "store_updateAccessOrder sessionId st =
     st\<lparr>accessOrder := filter (\<lambda>i. i \<noteq> sessionId) (accessOrder st) @ [sessionId]\<rparr>"

text \<open>
  The first loop of \<open>_evictIfNeeded\<close>: walk \<open>accessOrder\<close> from the least recently used
  end, collect every id that is not the viewed one, and stop as soon as the count of cached
  sessions minus the number collected is within the limit.
\<close>

fun collect_toEvict :: "string option \<Rightarrow> nat \<Rightarrow> string list \<Rightarrow> string list \<Rightarrow> string list" where
  "collect_toEvict viewing cachedCount [] toEvict = toEvict"
| "collect_toEvict viewing cachedCount (sessionId # rest) toEvict =
     (if Some sessionId \<noteq> viewing
      then (if int cachedCount - int (length (toEvict @ [sessionId])) \<le> int MAX_CACHED_SESSIONS
            then toEvict @ [sessionId]
            else collect_toEvict viewing cachedCount rest (toEvict @ [sessionId]))
      else collect_toEvict viewing cachedCount rest toEvict)"

definition store_evictIfNeeded :: "session_store \<Rightarrow> session_store" where
  "store_evictIfNeeded st =
     (let cachedCount = length (sessionData st)
      in if cachedCount \<le> MAX_CACHED_SESSIONS then st
         else (let toEvict = collect_toEvict (viewingSessionId st) cachedCount (accessOrder st) []
               in if toEvict = [] then st
                  else st\<lparr>sessionData := fold AList.delete toEvict (sessionData st),
                          accessOrder := fold remove1 toEvict (accessOrder st)\<rparr>))"

definition store_setSessionMessages ::
  "string \<Rightarrow> json list \<Rightarrow> pagination_arg \<Rightarrow> int \<Rightarrow> session_store \<Rightarrow> session_store" where
  "store_setSessionMessages sessionId msgs pg now st =
     (if \<not> truthy sessionId then st
      else store_evictIfNeeded (store_updateAccessOrder sessionId
             (st\<lparr>sessionData :=
                   AList.update sessionId
                     \<lparr>messages = msgs,
                      pagination = \<lparr>offset = num_or (arg_offset pg) 0,
                                    hasMore = bool_or_false (arg_hasMore pg),
                                    total = num_or (arg_total pg) (int (length msgs))\<rparr>,
                      lastAccess = now\<rparr>
                     (sessionData st)\<rparr>)))"


definition store_switchSession :: "string option \<Rightarrow> session_store \<Rightarrow> session_store" where
  "store_switchSession sessionId st =
     (let st1 = st\<lparr>viewingSessionId := sessionId\<rparr>
      in if truthy_opt sessionId then store_updateAccessOrder (the sessionId) st1 else st1)"

definition getSessionMessages :: "string \<Rightarrow> session_store \<Rightarrow> json list" where
  "getSessionMessages sessionId st =
     (case map_of (sessionData st) sessionId of None \<Rightarrow> [] | Some e \<Rightarrow> messages e)"

section \<open>Concrete scenarios\<close>

definition allow_response :: response where
  "allow_response = \<lparr>behavior = ''allow'', message = None,
                      updatedPermissions = Some [''{destination:localSettings}''], interrupt = None\<rparr>"

definition deny_response :: response where
  "deny_response = \<lparr>behavior = ''deny'', message = None, updatedPermissions = None, interrupt = None\<rparr>"

text \<open>One session on connection 1 asks for \<open>Write\<close> at time 1000.\<close>

definition one_pending :: arbiter where
  "one_pending =
     createCanUseTool 1 ''perm_1000_a'' 1000 1000 ''Write'' ''{file_path:/x}'' None ''toolu_1''
       arbiter_init"

text \<open>A second request, for \<open>Bash\<close>, arrives at time 200000.\<close>

definition two_pending :: arbiter where
  "two_pending =
     createCanUseTool 1 ''perm_200000_b'' 200000 200000 ''Bash'' ''{command:ls}'' None ''toolu_2''
       one_pending"

text \<open>A session with one staged image is running on the server.\<close>

definition running_server :: server where
  "running_server =
     \<lparr>activeSessions =
        [(''abc123'', \<lparr>status = ''active'', startTime = 1000,
                       tempImagePaths = [''/proj/.tmp/images/1000/image_0.png''],
                       tempDir = Some ''/proj/.tmp/images/1000''\<rparr>)],
      disk = [''/proj/src'', ''/proj/.tmp/images/1000'', ''/proj/.tmp/images/1000/image_0.png''],
      interrupts = []\<rparr>"

text \<open>
  The user opens session \<open>s0\<close> and its messages are loaded; then the messages of nine
  more sessions are loaded while \<open>s0\<close> stays on screen.
\<close>

definition no_pagination :: pagination_arg where
  "no_pagination = \<lparr>arg_offset = None, arg_hasMore = None, arg_total = None\<rparr>"

definition session_ids :: "string list" where
  "session_ids = [''s0'', ''s1'', ''s2'', ''s3'', ''s4'', ''s5'', ''s6'', ''s7'', ''s8'', ''s9'']"

definition load :: "string \<Rightarrow> signals \<Rightarrow> signals" where
  "load sessionId = setSessionMessages sessionId [''hello from '' @ sessionId] no_pagination"

definition ten_loaded :: signals where
  "ten_loaded = fold load session_ids (switchToSession ''s0'' signals_init)"

definition entry_of :: "string \<Rightarrow> cache_entry" where
  "entry_of sessionId =
     \<lparr>messages = [''hello from '' @ sessionId],
      pagination = \<lparr>offset = 0, hasMore = False, total = 1\<rparr>\<rparr>"

text \<open>The state in which \<open>evictIfNeeded\<close> runs when an eleventh session is loaded.\<close>

definition over_capacity :: signals where
  "over_capacity =
     \<lparr>sig_currentSessionId = Some ''s0'',
      sessionCache = map (\<lambda>i. (i, entry_of i)) (session_ids @ [''s10'']),
      sig_accessOrder = session_ids @ [''s10'']\<rparr>"

text \<open>An unresolved permission request as it is displayed.\<close>

definition perm_msg :: chat_message where
  "perm_msg = \<lparr>isPermissionRequest = True, permissionResolved = False, content = ''perm_1000_a''\<rparr>"

text \<open>
  Two new conversations: window A submits first and gets the first temporary id, window B
  the second. The SDK names A's session \<open>abc123\<close> and B's session \<open>xyz789\<close>.
\<close>

definition two_placeholders :: "string list" where
  "two_placeholders = [''new-session-1735280000000'', ''new-session-1735280001000'']"

definition new_query :: query_vars where
  "new_query = \<lparr>option_sessionId = None, capturedSessionId = None, sessionCreatedSent = False\<rparr>"

definition new_view :: chat_view where
  "new_view = \<lparr>currentSessionId = None, pendingSessionId = None\<rparr>"

text \<open>
  The zustand store in a state in which every cached session is listed once in
  \<open>accessOrder\<close> and nothing else is.
\<close>

definition store_wf :: "session_store \<Rightarrow> bool" where
  "store_wf st \<longleftrightarrow> distinct (map fst (sessionData st)) \<and> distinct (accessOrder st) \<and>
                 set (accessOrder st) = fst ` set (sessionData st)"

text \<open>
  The zustand store kept in step with its list of recent sessions: the keys of the cache
  are distinct, \<open>accessOrder\<close> has no repetition, and every cached session is listed.
\<close>

definition store_tracked :: "session_store \<Rightarrow> bool" where
  "store_tracked st \<longleftrightarrow> distinct (map fst (sessionData st)) \<and> distinct (accessOrder st) \<and>
                      fst ` set (sessionData st) \<subseteq> set (accessOrder st)"







text \<open>
  One query (number 7, on connection 1) is asked for permission twice before the user
  answers; the same with the second call made by another query on the same connection.
\<close>

definition two_requests_one_query :: "arbiter_event list" where
  "two_requests_one_query =
     [CanUseTool 7 1 ''perm_1000_a'' 1000 1000 ''Write'' ''{file_path:/x}'' None ''toolu_1'',
      CanUseTool 7 1 ''perm_200000_b'' 200000 200000 ''Bash'' ''{command:ls}'' None ''toolu_2'']"

definition two_requests_two_queries :: "arbiter_event list" where
  "two_requests_two_queries =
     [CanUseTool 7 1 ''perm_1000_a'' 1000 1000 ''Write'' ''{file_path:/x}'' None ''toolu_1'',
      CanUseTool 8 1 ''perm_200000_b'' 200000 200000 ''Bash'' ''{command:ls}'' None ''toolu_2'']"

text \<open>An assistant message of the transcript and one that is still streaming.\<close>

definition answer_msg :: chat_message where
  "answer_msg = \<lparr>isPermissionRequest = False, permissionResolved = False, content = ''hi''\<rparr>"

definition streaming_msg :: chat_message where
  "streaming_msg = \<lparr>isPermissionRequest = False, permissionResolved = False, content = ''streaming''\<rparr>"

section \<open>Facts about association lists\<close>

lemma filter_key_distinct:
  "distinct (map fst es) \<Longrightarrow> (k, v) \<in> set es \<Longrightarrow> filter (\<lambda>e. fst e = k) es = [(k, v)]"
proof (induction es)
  case Nil
  then show ?case by simp
next
  case (Cons e es)
  show ?case
  proof (cases "e = (k, v)")
    case True
    with Cons.prems have "k \<notin> fst ` set es" by auto
    then have "filter (\<lambda>e. fst e = k) es = []"
      by (auto simp: filter_empty_conv)
    with True show ?thesis by simp
  next
    case False
    with Cons.prems have in_es: "(k, v) \<in> set es" and d: "distinct (map fst es)" by auto
    from in_es Cons.prems(1) have "fst e \<noteq> k" by (auto simp: image_iff)
    with Cons.IH[OF d in_es] show ?thesis by simp
  qed
qed

lemma filter_key_map:
  "filter (\<lambda>e. fst e = k) (map (\<lambda>e. (fst e, c)) (filter Q xs))
     = map (\<lambda>e. (fst e, c)) (filter Q (filter (\<lambda>e. fst e = k) xs))"
  by (induction xs) auto

section \<open>Resolving a request that is not pending\<close>

text \<open>
  C8. Resolving a request id that is unknown, or that was already resolved, reports
  "not found" (returns false) and leaves the arbiter as it was: the pending map and the
  log of settlements are unchanged, whatever the response says.
\<close>

theorem resolve_unknown_noop:
  "(map_of (pendingPermissionRequests st) requestId = None \<longrightarrow>
      resolvePermissionRequest requestId resp st = (False, st)) \<and>
   (fst (resolvePermissionRequest requestId resp st) \<longrightarrow>
      resolvePermissionRequest requestId resp'
        (snd (resolvePermissionRequest requestId resp st))
      = (False, snd (resolvePermissionRequest requestId resp st)))"
proof (intro conjI impI)
  assume "map_of (pendingPermissionRequests st) requestId = None"
  then show "resolvePermissionRequest requestId resp st = (False, st)"
    by (simp add: resolvePermissionRequest_def)
next
  let ?st' = "snd (resolvePermissionRequest requestId resp st)"
  assume found: "fst (resolvePermissionRequest requestId resp st)"
  then obtain pending where p: "map_of (pendingPermissionRequests st) requestId = Some pending"
    by (cases "map_of (pendingPermissionRequests st) requestId")
       (auto simp: resolvePermissionRequest_def)
  have "pendingPermissionRequests ?st' = AList.delete requestId (pendingPermissionRequests st)"
    using p by (simp add: resolvePermissionRequest_def Let_def)
  then have "map_of (pendingPermissionRequests ?st') requestId = None"
    by (simp add: delete_conv')
  then show "resolvePermissionRequest requestId resp' ?st' = (False, ?st')"
    by (simp add: resolvePermissionRequest_def)
qed

theorem resolve_unknown_noop_witness:
  "map_of (pendingPermissionRequests arbiter_init) ''perm_1000_a'' = None \<and>
   resolvePermissionRequest ''perm_1000_a'' allow_response arbiter_init = (False, arbiter_init) \<and>
   fst (resolvePermissionRequest ''perm_1000_a'' allow_response one_pending) \<and>
   resolvePermissionRequest ''perm_1000_a'' deny_response
     (snd (resolvePermissionRequest ''perm_1000_a'' allow_response one_pending))
   = (False, snd (resolvePermissionRequest ''perm_1000_a'' allow_response one_pending))"
proof -
  have unknown: "map_of (pendingPermissionRequests arbiter_init) ''perm_1000_a'' = None"
    by (simp add: arbiter_init_def)
  have found: "fst (resolvePermissionRequest ''perm_1000_a'' allow_response one_pending)"
    by (simp add: resolvePermissionRequest_def one_pending_def createCanUseTool_def
        registerPermissionRequest_def arbiter_init_def Let_def)
  show ?thesis
    using unknown found
      resolve_unknown_noop [of arbiter_init "''perm_1000_a''" allow_response]
      resolve_unknown_noop [of one_pending "''perm_1000_a''" allow_response deny_response]
    by blast
qed

section \<open>The tool input of an allowed request\<close>

text \<open>
  C10. When a pending request is resolved with behavior allow, the result handed to the SDK
  carries the input stored with the request, which is the input the request was registered
  with; the response supplies the permission updates (none when it has none) and nothing in
  it reaches the input.
\<close>

theorem allow_keeps_registered_input:
  assumes "behavior resp = ''allow''"
  shows "(map_of (pendingPermissionRequests st) requestId = Some pending \<longrightarrow>
            emitted st (snd (resolvePermissionRequest requestId resp st))
            = [(requestId, Resolved (Allow (input pending)
                 (case updatedPermissions resp of Some u \<Rightarrow> u | None \<Rightarrow> [])))]) \<and>
         emitted (createCanUseTool ws requestId now sentAt tool inp sugg tuid st)
           (snd (resolvePermissionRequest requestId resp
                  (createCanUseTool ws requestId now sentAt tool inp sugg tuid st)))
         = [(requestId, Resolved (Allow inp
              (case updatedPermissions resp of Some u \<Rightarrow> u | None \<Rightarrow> [])))]"
proof (intro conjI impI)
  assume "map_of (pendingPermissionRequests st) requestId = Some pending"
  then show "emitted st (snd (resolvePermissionRequest requestId resp st))
            = [(requestId, Resolved (Allow (input pending)
                 (case updatedPermissions resp of Some u \<Rightarrow> u | None \<Rightarrow> [])))]"
    using assms by (simp add: resolvePermissionRequest_def emitted_def Let_def)
next
  let ?st1 = "createCanUseTool ws requestId now sentAt tool inp sugg tuid st"
  have "map_of (pendingPermissionRequests ?st1) requestId =
          Some \<lparr>toolName = tool, input = inp, suggestions = sugg, toolUseID = tuid, timestamp = now\<rparr>"
    by (simp add: createCanUseTool_def registerPermissionRequest_def Let_def update_conv')
  then show "emitted ?st1 (snd (resolvePermissionRequest requestId resp ?st1))
         = [(requestId, Resolved (Allow inp
              (case updatedPermissions resp of Some u \<Rightarrow> u | None \<Rightarrow> [])))]"
    using assms by (simp add: resolvePermissionRequest_def emitted_def Let_def)
qed

theorem allow_keeps_registered_input_witness:
  "behavior allow_response = ''allow'' \<and>
   map_of (pendingPermissionRequests two_pending) ''perm_200000_b''
     = Some \<lparr>toolName = ''Bash'', input = ''{command:ls}'', suggestions = None,
             toolUseID = ''toolu_2'', timestamp = 200000\<rparr> \<and>
   emitted two_pending (snd (resolvePermissionRequest ''perm_200000_b'' allow_response two_pending))
     = [(''perm_200000_b'', Resolved (Allow ''{command:ls}'' [''{destination:localSettings}'']))] \<and>
   emitted one_pending (snd (resolvePermissionRequest ''perm_1000_a'' allow_response one_pending))
     = [(''perm_1000_a'', Resolved (Allow ''{file_path:/x}'' [''{destination:localSettings}'']))]"
proof -
  let ?bash = "\<lparr>toolName = ''Bash'', input = ''{command:ls}'', suggestions = None,
                toolUseID = ''toolu_2'', timestamp = 200000\<rparr>"
  have allow: "behavior allow_response = ''allow''"
    by (simp add: allow_response_def)
  have stored: "map_of (pendingPermissionRequests two_pending) ''perm_200000_b'' = Some ?bash"
    by (simp add: two_pending_def one_pending_def createCanUseTool_def
        registerPermissionRequest_def arbiter_init_def Let_def)
  have perms: "updatedPermissions allow_response = Some [''{destination:localSettings}'']"
    by (simp add: allow_response_def)
  note looked_up = allow_keeps_registered_input [OF allow, of two_pending "''perm_200000_b''" ?bash]
  note registered = allow_keeps_registered_input [OF allow, of arbiter_init "''perm_1000_a''" ?bash
        1 1000 1000 "''Write''" "''{file_path:/x}''" None "''toolu_1''"]
  from looked_up stored
  have a: "emitted two_pending (snd (resolvePermissionRequest ''perm_200000_b'' allow_response two_pending))
     = [(''perm_200000_b'', Resolved (Allow ''{command:ls}'' [''{destination:localSettings}'']))]"
    by (simp add: perms)
  from registered
  have b: "emitted one_pending (snd (resolvePermissionRequest ''perm_1000_a'' allow_response one_pending))
     = [(''perm_1000_a'', Resolved (Allow ''{file_path:/x}'' [''{destination:localSettings}'']))]"
    by (simp add: perms one_pending_def)
  from allow stored a b show ?thesis by blast
qed

section \<open>The timeout sweep\<close>

lemma cleanup_loop_settled:
  "settled (cleanup_loop now t es st) =
     settled st @ map (\<lambda>e. (fst e, Resolved (Deny ''Permission request timed out'' False)))
                      (filter (expired now t) es)"
  by (induction es arbitrary: st) (auto simp: expired_def)

lemma cleanup_loop_pending:
  "pendingPermissionRequests (cleanup_loop now t es st) =
     filter (\<lambda>e. fst e \<notin> fst ` set (filter (expired now t) es)) (pendingPermissionRequests st)"
proof (induction es arbitrary: st)
  case Nil
  then show ?case by simp
next
  case (Cons e es)
  obtain r q where e: "e = (r, q)" by (cases e)
  show ?case
    unfolding e using Cons.IH
    by (auto simp: expired_def AList.delete_eq intro!: filter_cong)
qed

text \<open>
  C5. When the sweep runs, every pending request whose age exceeds the timeout is resolved
  exactly once, as deny with the timeout message and interrupt = false, and is no longer
  pending afterwards; a request whose age does not exceed the timeout stays pending,
  unchanged, and nothing is resolved for it. (The keys of the map are distinct.)
\<close>

theorem sweep_resolves_expired_once:
  assumes d: "distinct (map fst (pendingPermissionRequests st))"
    and m: "(requestId, request) \<in> set (pendingPermissionRequests st)"
  shows "(now - timestamp request > timeoutMs \<longrightarrow>
            map_of (pendingPermissionRequests (cleanupTimedOutPermissions timeoutMs now st)) requestId = None \<and>
            filter (\<lambda>e. fst e = requestId) (emitted st (cleanupTimedOutPermissions timeoutMs now st))
              = [(requestId, Resolved (Deny ''Permission request timed out'' False))]) \<and>
         (now - timestamp request \<le> timeoutMs \<longrightarrow>
            map_of (pendingPermissionRequests (cleanupTimedOutPermissions timeoutMs now st)) requestId = Some request \<and>
            filter (\<lambda>e. fst e = requestId) (emitted st (cleanupTimedOutPermissions timeoutMs now st)) = [])"
proof -
  let ?P = "pendingPermissionRequests st"
  let ?st' = "cleanupTimedOutPermissions timeoutMs now st"
  let ?D = "Resolved (Deny ''Permission request timed out'' False)"
  have em: "emitted st ?st' = map (\<lambda>e. (fst e, ?D)) (filter (expired now timeoutMs) ?P)"
    by (simp add: emitted_def cleanupTimedOutPermissions_def cleanup_loop_settled)
  have pe: "pendingPermissionRequests ?st' =
              filter (\<lambda>e. fst e \<notin> fst ` set (filter (expired now timeoutMs) ?P)) ?P"
    by (simp add: cleanupTimedOutPermissions_def cleanup_loop_pending)
  have key: "\<And>e. e \<in> set ?P \<Longrightarrow> fst e = requestId \<Longrightarrow> e = (requestId, request)"
  proof -
    fix e assume "e \<in> set ?P" "fst e = requestId"
    then have "(requestId, snd e) \<in> set ?P" by (metis prod.collapse)
    with d m have "snd e = request" by (metis map_of_eq_Some_iff option.inject)
    with \<open>fst e = requestId\<close> show "e = (requestId, request)" by (metis prod.collapse)
  qed
  have fl: "filter (\<lambda>e. fst e = requestId) (map (\<lambda>e. (fst e, ?D)) (filter (expired now timeoutMs) ?P))
          = map (\<lambda>e. (fst e, ?D)) (filter (expired now timeoutMs) (filter (\<lambda>e. fst e = requestId) ?P))"
    by (rule filter_key_map)
  have one: "filter (\<lambda>e. fst e = requestId) ?P = [(requestId, request)]"
    using filter_key_distinct[OF d m] .
  show ?thesis
  proof (intro conjI impI)
    assume ex: "now - timestamp request > timeoutMs"
    then have "requestId \<in> fst ` set (filter (expired now timeoutMs) ?P)"
      using m by (force simp: expired_def)
    then have "requestId \<notin> fst ` set (pendingPermissionRequests ?st')"
      unfolding pe by force
    then show "map_of (pendingPermissionRequests ?st') requestId = None"
      by (simp add: map_of_eq_None_iff)
    show "filter (\<lambda>e. fst e = requestId) (emitted st ?st') = [(requestId, ?D)]"
      unfolding em fl one using ex by (simp add: expired_def)
  next
    assume nex: "now - timestamp request \<le> timeoutMs"
    have notin: "requestId \<notin> fst ` set (filter (expired now timeoutMs) ?P)"
    proof
      assume "requestId \<in> fst ` set (filter (expired now timeoutMs) ?P)"
      then obtain e where e: "e \<in> set ?P" "expired now timeoutMs e" "fst e = requestId" by auto
      with key have "e = (requestId, request)" by blast
      with e(2) nex show False by (simp add: expired_def)
    qed
    have dd: "distinct (map fst (pendingPermissionRequests ?st'))"
      unfolding pe using d by (simp add: distinct_map_filter)
    have "(requestId, request) \<in> set (pendingPermissionRequests ?st')"
      unfolding pe using m notin by simp
    with dd show "map_of (pendingPermissionRequests ?st') requestId = Some request"
      by simp
    show "filter (\<lambda>e. fst e = requestId) (emitted st ?st') = []"
      unfolding em fl one using nex by (simp add: expired_def)
  qed
qed

theorem sweep_resolves_expired_once_witness:
  "distinct (map fst (pendingPermissionRequests two_pending)) \<and>
   (''perm_1000_a'',
    \<lparr>toolName = ''Write'', input = ''{file_path:/x}'', suggestions = None,
     toolUseID = ''toolu_1'', timestamp = 1000\<rparr>) \<in> set (pendingPermissionRequests two_pending) \<and>
   (''perm_200000_b'',
    \<lparr>toolName = ''Bash'', input = ''{command:ls}'', suggestions = None,
     toolUseID = ''toolu_2'', timestamp = 200000\<rparr>) \<in> set (pendingPermissionRequests two_pending) \<and>
   map_of (pendingPermissionRequests (cleanupTimedOutPermissions default_timeoutMs 400000 two_pending))
     ''perm_1000_a'' = None \<and>
   filter (\<lambda>e. fst e = ''perm_1000_a'')
     (emitted two_pending (cleanupTimedOutPermissions default_timeoutMs 400000 two_pending))
   = [(''perm_1000_a'', Resolved (Deny ''Permission request timed out'' False))] \<and>
   map_of (pendingPermissionRequests (cleanupTimedOutPermissions default_timeoutMs 400000 two_pending))
     ''perm_200000_b''
   = Some \<lparr>toolName = ''Bash'', input = ''{command:ls}'', suggestions = None,
           toolUseID = ''toolu_2'', timestamp = 200000\<rparr> \<and>
   filter (\<lambda>e. fst e = ''perm_200000_b'')
     (emitted two_pending (cleanupTimedOutPermissions default_timeoutMs 400000 two_pending)) = []"
proof -
  let ?r1 = "\<lparr>toolName = ''Write'', input = ''{file_path:/x}'', suggestions = None,
              toolUseID = ''toolu_1'', timestamp = 1000\<rparr>"
  let ?r2 = "\<lparr>toolName = ''Bash'', input = ''{command:ls}'', suggestions = None,
              toolUseID = ''toolu_2'', timestamp = 200000\<rparr>"
  have p: "pendingPermissionRequests two_pending = [(''perm_1000_a'', ?r1), (''perm_200000_b'', ?r2)]"
    by (simp add: two_pending_def one_pending_def createCanUseTool_def
        registerPermissionRequest_def arbiter_init_def Let_def)
  have d: "distinct (map fst (pendingPermissionRequests two_pending))"
    by (simp add: p)
  have m1: "(''perm_1000_a'', ?r1) \<in> set (pendingPermissionRequests two_pending)"
    by (simp add: p)
  have m2: "(''perm_200000_b'', ?r2) \<in> set (pendingPermissionRequests two_pending)"
    by (simp add: p)
  have old: "400000 - timestamp ?r1 > default_timeoutMs"
    by (simp add: default_timeoutMs_def)
  have young: "400000 - timestamp ?r2 \<le> default_timeoutMs"
    by (simp add: default_timeoutMs_def)
  show ?thesis
    using d m1 m2 old young
      sweep_resolves_expired_once [OF d m1, where now = 400000 and timeoutMs = default_timeoutMs]
      sweep_resolves_expired_once [OF d m2, where now = 400000 and timeoutMs = default_timeoutMs]
    by blast
qed

section \<open>The keys of the pending map\<close>

text \<open>
  A \<open>Map\<close> has each key once. The association list that stands for it starts empty and
  every operation of the arbiter keeps its keys distinct.
\<close>

lemma arbiter_init_distinct:
  "distinct (map fst (pendingPermissionRequests arbiter_init))"
  by (simp add: arbiter_init_def)

lemma createCanUseTool_distinct:
  "distinct (map fst (pendingPermissionRequests st)) \<Longrightarrow>
   distinct (map fst (pendingPermissionRequests
     (createCanUseTool ws requestId now sentAt tool inp sugg tuid st)))"
  by (simp add: createCanUseTool_def registerPermissionRequest_def Let_def distinct_update)

lemma resolvePermissionRequest_distinct:
  "distinct (map fst (pendingPermissionRequests st)) \<Longrightarrow>
   distinct (map fst (pendingPermissionRequests (snd (resolvePermissionRequest requestId resp st))))"
  by (simp add: resolvePermissionRequest_def Let_def distinct_delete split: option.splits)

lemma abort_listener_distinct:
  "distinct (map fst (pendingPermissionRequests st)) \<Longrightarrow>
   distinct (map fst (pendingPermissionRequests (abort_listener requestId st)))"
  by (simp add: abort_listener_def distinct_delete)

lemma cleanupTimedOutPermissions_distinct:
  "distinct (map fst (pendingPermissionRequests st)) \<Longrightarrow>
   distinct (map fst (pendingPermissionRequests (cleanupTimedOutPermissions timeoutMs now st)))"
  by (simp add: cleanupTimedOutPermissions_def cleanup_loop_pending distinct_map_filter)

section \<open>Routing of session-scoped messages\<close>

text \<open>
  C3. For a session-scoped message (not global, carrying a session id): when the view has a
  final session id, the message is delivered if and only if it carries that id; when it has
  none but a pending id is stored, the message is delivered if and only if it carries the
  pending id; when it has neither, the message is delivered; and a message that is not
  delivered is dropped.
\<close>

theorem message_filter_rule:
  assumes "\<not> isGlobalMessage" and "truthy_opt messageSessionId"
  shows "(truthy_opt (currentSessionId v) \<longrightarrow>
            (message_filter isGlobalMessage messageSessionId v = Delivered
               \<longleftrightarrow> messageSessionId = currentSessionId v)) \<and>
         (\<not> truthy_opt (currentSessionId v) \<and> truthy_opt (pendingSessionId v) \<longrightarrow>
            (message_filter isGlobalMessage messageSessionId v = Delivered
               \<longleftrightarrow> messageSessionId = pendingSessionId v)) \<and>
         (\<not> truthy_opt (currentSessionId v) \<and> \<not> truthy_opt (pendingSessionId v) \<longrightarrow>
            message_filter isGlobalMessage messageSessionId v = Delivered) \<and>
         (message_filter isGlobalMessage messageSessionId v \<noteq> Delivered \<longrightarrow>
            message_filter isGlobalMessage messageSessionId v = Dropped)"
  using assms by (simp add: message_filter_def)

theorem message_filter_rule_witness:
  "\<not> False \<and> truthy_opt (Some ''abc123'') \<and>
   truthy_opt (Some ''xyz789'') \<and> \<not> truthy_opt None \<and>
   message_filter False (Some ''abc123'')
     \<lparr>currentSessionId = Some ''abc123'', pendingSessionId = None\<rparr> = Delivered \<and>
   message_filter False (Some ''abc123'')
     \<lparr>currentSessionId = Some ''xyz789'', pendingSessionId = Some ''abc123''\<rparr> = Dropped \<and>
   message_filter False (Some ''abc123'')
     \<lparr>currentSessionId = None, pendingSessionId = Some ''abc123''\<rparr> = Delivered \<and>
   message_filter False (Some ''abc123'')
     \<lparr>currentSessionId = None, pendingSessionId = Some ''xyz789''\<rparr> = Dropped \<and>
   message_filter False (Some ''abc123'')
     \<lparr>currentSessionId = None, pendingSessionId = None\<rparr> = Delivered"
proof -
  have g: "\<not> False" by simp
  have t: "truthy_opt (Some ''abc123'')" by (simp add: truthy_opt_def truthy_def)
  have t': "truthy_opt (Some ''xyz789'')" by (simp add: truthy_opt_def truthy_def)
  have n: "\<not> truthy_opt None" by (simp add: truthy_opt_def)
  have ne: "Some ''abc123'' \<noteq> Some ''xyz789''" by simp
  show ?thesis
    using g t t' n ne
      message_filter_rule [OF g t, of "\<lparr>currentSessionId = Some ''abc123'', pendingSessionId = None\<rparr>"]
      message_filter_rule [OF g t, of "\<lparr>currentSessionId = Some ''xyz789'', pendingSessionId = Some ''abc123''\<rparr>"]
      message_filter_rule [OF g t, of "\<lparr>currentSessionId = None, pendingSessionId = Some ''abc123''\<rparr>"]
      message_filter_rule [OF g t, of "\<lparr>currentSessionId = None, pendingSessionId = Some ''xyz789''\<rparr>"]
      message_filter_rule [OF g t, of "\<lparr>currentSessionId = None, pendingSessionId = None\<rparr>"]
    by simp
qed

section \<open>Aborting a session\<close>

text \<open>
  C6. The claim is that an abort always removes the session from the table of active
  sessions and deletes its temporary files, also when the interrupt throws. Evaluated on a
  running session with one staged image: when the interrupt throws, the abort returns false
  and the session and its files are all still there; when the interrupt returns, both are
  gone; and the error path of the query itself removes both.
\<close>

theorem abort_skips_cleanup_when_interrupt_throws:
  "abortClaudeSDKSession ''abc123'' InterruptThrows running_server
     = (False, running_server\<lparr>interrupts := [''abc123'']\<rparr>) \<and>
   abortClaudeSDKSession ''abc123'' InterruptReturns running_server
     = (True, \<lparr>activeSessions = [], disk = [''/proj/src''], interrupts = [''abc123'']\<rparr>) \<and>
   queryClaudeSDK_catch (Some ''abc123'') [''/proj/.tmp/images/1000/image_0.png'']
       (Some ''/proj/.tmp/images/1000'') running_server
     = \<lparr>activeSessions = [], disk = [''/proj/src''], interrupts = []\<rparr>"
  by (simp add: abortClaudeSDKSession_def running_server_def getSession_def removeSession_def
      cleanupTempFiles_def unlink_def rm_recursive_def truthy_opt_def truthy_def
      queryClaudeSDK_catch_def Let_def)

text \<open>In general, an abort whose interrupt throws changes nothing but the record of the call.\<close>

lemma abort_interrupt_throws:
  "getSession sessionId sv = Some s \<Longrightarrow>
   abortClaudeSDKSession sessionId InterruptThrows sv
     = (False, sv\<lparr>interrupts := interrupts sv @ [sessionId]\<rparr>)"
  by (simp add: abortClaudeSDKSession_def Let_def)

section \<open>Eviction in the signals store\<close>

lemma ten_loaded_eq:
  "ten_loaded = \<lparr>sig_currentSessionId = Some ''s0'',
      sessionCache = map (\<lambda>i. (i, entry_of i)) session_ids,
      sig_accessOrder = session_ids\<rparr>"
  by (simp add: ten_loaded_def session_ids_def load_def setSessionMessages_def
      switchToSession_def signals_init_def updateAccessOrder_def evictIfNeeded_def
      MAX_CACHED_SESSIONS_def truthy_def no_pagination_def num_or_def bool_or_false_def
      entry_of_def)

text \<open>
  C2. The claim is that eviction never removes the session on screen. In the signals store
  it does: with \<open>s0\<close> on screen and ten sessions cached, loading an eleventh session runs
  \<open>evictIfNeeded\<close> on eleven cached sessions, and the step removes \<open>s0\<close>, the least
  recently used one, so that the messages of the current session are gone.
\<close>

theorem signals_evicts_current_session:
  "currentMessages ten_loaded = [''hello from s0''] \<and>
   load ''s10'' ten_loaded = evictIfNeeded over_capacity \<and>
   length (sessionCache over_capacity) = 11 \<and>
   sig_currentSessionId (evictIfNeeded over_capacity) = Some ''s0'' \<and>
   \<not> isSessionCached ''s0'' (evictIfNeeded over_capacity) \<and>
   currentMessages (evictIfNeeded over_capacity) = []"
  unfolding ten_loaded_eq
  by (simp add: session_ids_def load_def setSessionMessages_def
      updateAccessOrder_def evictIfNeeded_def
      MAX_CACHED_SESSIONS_def truthy_def no_pagination_def num_or_def bool_or_false_def
      entry_of_def over_capacity_def clearSession_def isSessionCached_def in_object_def
      object_prototype_names_def currentMessages_def)

section \<open>Replacing a temporary session id\<close>

lemma first_temporary_filter:
  "first_temporary xs = (case filter is_temporary xs of [] \<Rightarrow> None | p # _ \<Rightarrow> Some p)"
  by (induction xs) auto

lemma filter_set_add:
  "\<not> is_temporary r \<Longrightarrow> filter is_temporary (set_add r xs) = filter is_temporary xs"
  by (simp add: set_add_def)

lemma filter_removeAll: "filter P (removeAll p xs) = removeAll p (filter P xs)"
  by (induction xs) auto

lemma set_set_add: "set (set_add r xs) = insert r (set xs)"
  by (auto simp: set_add_def)

text \<open>
  C1, as claimed: with two placeholders and the rewrite of the second conversation
  delivered first, each placeholder is replaced by the real id of its own conversation.
  The code does otherwise. The server's \<open>session-created\<close> message carries the real id and
  nothing else; the handler passes that id to \<open>replaceTemporarySession\<close>, which deletes the
  first temporary id it finds. So the rewrite of B (\<open>xyz789\<close>), arriving first, replaces
  the placeholder of A, and the rewrite of A (\<open>abc123\<close>) then replaces the placeholder of B.
\<close>

theorem replaceTemporarySession_swaps_out_of_order:
  "snd (capture_session_id (Some ''xyz789'') [] None 2000
         (new_query, \<lparr>activeSessions = [], disk = [], interrupts = []\<rparr>))
     = [SessionCreated ''xyz789''] \<and>
   session_created_case (Some ''xyz789'') (new_view, two_placeholders)
     = (new_view\<lparr>pendingSessionId := Some ''xyz789''\<rparr>, [''new-session-1735280001000'', ''xyz789'']) \<and>
   replaceTemporarySession ''xyz789'' two_placeholders
     = ([''new-session-1735280001000'', ''xyz789''], Some (''new-session-1735280000000'', ''xyz789'')) \<and>
   replaceTemporarySession ''abc123'' [''new-session-1735280001000'', ''xyz789'']
     = ([''xyz789'', ''abc123''], Some (''new-session-1735280001000'', ''abc123''))"
  by (simp add: replaceTemporarySession_def is_temporary_def set_add_def two_placeholders_def
      session_created_case_def new_view_def capture_session_id_def new_query_def
      truthy_opt_def truthy_def addSession_def Let_def)

text \<open>
  C1, amended. \<open>replaceTemporarySession\<close> pairs rewrites with placeholders by position:
  when the set of protected sessions holds exactly two temporary ids, \<open>p1\<close> inserted before
  \<open>p2\<close>, the rewrite delivered first replaces \<open>p1\<close> and the rewrite delivered second
  replaces \<open>p2\<close>, whatever conversation each belongs to; after both, the set holds the two
  real ids in place of the two placeholders and everything else it held.
\<close>

theorem rewrites_follow_insertion_order:
  assumes d: "distinct active"
    and f: "filter is_temporary active = [p1, p2]"
    and ra: "\<not> is_temporary ra" and rb: "\<not> is_temporary rb"
  shows "snd (replaceTemporarySession ra active) = Some (p1, ra) \<and>
         snd (replaceTemporarySession rb (fst (replaceTemporarySession ra active))) = Some (p2, rb) \<and>
         set (fst (replaceTemporarySession rb (fst (replaceTemporarySession ra active))))
           = (set active - {p1, p2}) \<union> {ra, rb}"
proof -
  have ft1: "first_temporary active = Some p1"
    by (simp add: first_temporary_filter f)
  let ?s1 = "set_add ra (removeAll p1 active)"
  have r1: "replaceTemporarySession ra active = (?s1, Some (p1, ra))"
    by (simp add: replaceTemporarySession_def ft1)
  from d have "distinct (filter is_temporary active)" by simp
  with f have ne: "p1 \<noteq> p2" by simp
  have "p2 \<in> set (filter is_temporary active)" by (simp add: f)
  then have t2: "is_temporary p2" by simp
  have f1: "filter is_temporary ?s1 = [p2]"
    using ne ra by (simp add: filter_set_add filter_removeAll f)
  have ft2: "first_temporary ?s1 = Some p2"
    by (simp add: first_temporary_filter f1)
  let ?s2 = "set_add rb (removeAll p2 ?s1)"
  have r2: "replaceTemporarySession rb ?s1 = (?s2, Some (p2, rb))"
    by (simp add: replaceTemporarySession_def ft2)
  have "ra \<noteq> p2" using ra t2 by auto
  then have "set ?s2 = (set active - {p1, p2}) \<union> {ra, rb}"
    by (auto simp: set_set_add)
  with r1 r2 show ?thesis by simp
qed

theorem rewrites_follow_insertion_order_witness:
  "distinct two_placeholders \<and>
   filter is_temporary two_placeholders
     = [''new-session-1735280000000'', ''new-session-1735280001000''] \<and>
   \<not> is_temporary ''xyz789'' \<and> \<not> is_temporary ''abc123'' \<and>
   snd (replaceTemporarySession ''xyz789'' two_placeholders)
     = Some (''new-session-1735280000000'', ''xyz789'') \<and>
   snd (replaceTemporarySession ''abc123'' (fst (replaceTemporarySession ''xyz789'' two_placeholders)))
     = Some (''new-session-1735280001000'', ''abc123'') \<and>
   set (fst (replaceTemporarySession ''abc123''
              (fst (replaceTemporarySession ''xyz789'' two_placeholders))))
     = {''xyz789'', ''abc123''}"
proof -
  have d: "distinct two_placeholders"
    by (simp add: two_placeholders_def)
  have f: "filter is_temporary two_placeholders
             = [''new-session-1735280000000'', ''new-session-1735280001000'']"
    by (simp add: is_temporary_def two_placeholders_def)
  have ra: "\<not> is_temporary ''xyz789''" by (simp add: is_temporary_def)
  have rb: "\<not> is_temporary ''abc123''" by (simp add: is_temporary_def)
  have s: "set two_placeholders - {''new-session-1735280000000'', ''new-session-1735280001000''}
             \<union> {''xyz789'', ''abc123''} = {''xyz789'', ''abc123''}"
    by (simp add: two_placeholders_def)
  show ?thesis
    using d f ra rb rewrites_follow_insertion_order [OF d f ra rb]
    unfolding s by blast
qed

section \<open>Merging the transcript with the displayed messages\<close>

lemma sync_formula:
  "length sessionMessages > 0 \<Longrightarrow>
   sync_chatMessages sessionMessages convertedMessages prev
     = convertedMessages @ filter unresolved_permission prev"
  by (simp add: sync_chatMessages_def Let_def)

text \<open>
  C4, as claimed: the merge is idempotent for every transcript and every list of live
  messages, and a live message that also appears in the transcript is not duplicated.
  When the converted transcript holds an unresolved permission request that is also
  displayed, one run of the merge shows it twice and a second run shows it three times.
\<close>

theorem sync_duplicates_request_in_transcript:
  "sync_chatMessages [''line''] [perm_msg] [perm_msg] = [perm_msg, perm_msg] \<and>
   sync_chatMessages [''line''] [perm_msg] (sync_chatMessages [''line''] [perm_msg] [perm_msg])
     = [perm_msg, perm_msg, perm_msg]"
  by (simp add: sync_chatMessages_def perm_msg_def unresolved_permission_def)

text \<open>
  C4, amended. With a non-empty transcript the merge yields the converted transcript
  followed by the unresolved permission requests of the displayed list (with an empty
  transcript it leaves the displayed list alone). When the converted transcript holds no
  unresolved permission request, the unresolved permission requests of the result are those
  of the displayed list, each as often as before, and running the merge again on its own
  result with the same transcript changes nothing. The merge removes no duplicates.
\<close>

theorem sync_idempotent_without_requests_in_transcript:
  assumes "filter unresolved_permission convertedMessages = []"
  shows "(length sessionMessages > 0 \<longrightarrow>
            sync_chatMessages sessionMessages convertedMessages prev
              = convertedMessages @ filter unresolved_permission prev) \<and>
         (length sessionMessages = 0 \<longrightarrow>
            sync_chatMessages sessionMessages convertedMessages prev = prev) \<and>
         filter unresolved_permission (sync_chatMessages sessionMessages convertedMessages prev)
           = filter unresolved_permission prev \<and>
         sync_chatMessages sessionMessages convertedMessages
            (sync_chatMessages sessionMessages convertedMessages prev)
           = sync_chatMessages sessionMessages convertedMessages prev"
proof (cases "length sessionMessages > 0")
  case True
  then show ?thesis using assms by (simp add: sync_formula)
next
  case False
  then show ?thesis by (simp add: sync_chatMessages_def)
qed

theorem sync_idempotent_without_requests_in_transcript_witness:
  "filter unresolved_permission [answer_msg] = [] \<and>
   length [''line''] > 0 \<and>
   sync_chatMessages [''line''] [answer_msg] [streaming_msg, perm_msg] = [answer_msg, perm_msg] \<and>
   sync_chatMessages [''line''] [answer_msg]
       (sync_chatMessages [''line''] [answer_msg] [streaming_msg, perm_msg])
     = [answer_msg, perm_msg] \<and>
   filter unresolved_permission [] = [] \<and>
   length ([] :: json list) = 0 \<and>
   sync_chatMessages [] [] [streaming_msg, perm_msg] = [streaming_msg, perm_msg]"
proof -
  let ?live = "[streaming_msg, perm_msg]"
  have h: "filter unresolved_permission [answer_msg] = []"
    by (simp add: unresolved_permission_def answer_msg_def)
  have h0: "filter unresolved_permission [] = []" by simp
  have n: "length [''line''] > 0" by simp
  have n0: "length ([] :: json list) = 0" by simp
  have u: "filter unresolved_permission ?live = [perm_msg]"
    by (simp add: unresolved_permission_def perm_msg_def streaming_msg_def)
  note inst = sync_idempotent_without_requests_in_transcript [OF h, of "[''line'']" ?live]
  note inst0 = sync_idempotent_without_requests_in_transcript [OF h0, of "[]" ?live]
  from inst n
  have once: "sync_chatMessages [''line''] [answer_msg] ?live
                = [answer_msg] @ filter unresolved_permission ?live"
    by blast
  from inst
  have twice: "sync_chatMessages [''line''] [answer_msg] (sync_chatMessages [''line''] [answer_msg] ?live)
                 = sync_chatMessages [''line''] [answer_msg] ?live"
    by blast
  from once have once': "sync_chatMessages [''line''] [answer_msg] ?live = [answer_msg, perm_msg]"
    unfolding u by simp
  from twice
  have twice': "sync_chatMessages [''line''] [answer_msg] (sync_chatMessages [''line''] [answer_msg] ?live)
                  = [answer_msg, perm_msg]"
    unfolding once' .
  from inst0 n0 have empty: "sync_chatMessages [] [] ?live = ?live" by blast
  from h n once' twice' h0 n0 empty show ?thesis by blast
qed

section \<open>Pending requests of one session and of several\<close>

lemma arbiter_run_snoc: "arbiter_run (evs @ [e]) = arbiter_step e (arbiter_run evs)"
  by (simp add: arbiter_run_def)

lemma requests_of_query_append:
  "requests_of_query q (xs @ ys) = requests_of_query q xs @ requests_of_query q ys"
  by (induction q xs rule: requests_of_query.induct) simp_all

text \<open>
  C7, as claimed: a session never has two unresolved permission requests at once. The
  callback of a query registers a request without looking at the map, and the map keeps no
  session. When the SDK calls the callback of one query twice before the user answers, both
  requests of that session are pending together. (When the second call comes from another
  query on the same connection, each session has one.)
\<close>

theorem two_unresolved_requests_in_one_session:
  "arbiter_run two_requests_one_query = two_pending \<and>
   unresolved_of_session 7 two_requests_one_query = [''perm_1000_a'', ''perm_200000_b''] \<and>
   unresolved_of_session 7 two_requests_two_queries = [''perm_1000_a''] \<and>
   unresolved_of_session 8 two_requests_two_queries = [''perm_200000_b'']"
  by (simp add: unresolved_of_session_def arbiter_run_def two_requests_one_query_def
      two_requests_two_queries_def two_pending_def one_pending_def createCanUseTool_def
      registerPermissionRequest_def arbiter_init_def Let_def)

text \<open>
  C7, amended. Pending requests are kept by request id, with no limit per session: a new
  request is registered whatever is pending already and leaves every other entry as it
  was, and resolving one request neither changes nor settles any other. For the sessions:
  a call of a query's callback with a request id the query has not used adds that request
  to the unresolved requests of its session, however many there are; a response to one
  request removes that request from the unresolved requests of every session and nothing
  else.
\<close>

theorem requests_do_not_interfere:
  assumes "other \<noteq> requestId"
  shows "map_of (pendingPermissionRequests (snd (resolvePermissionRequest requestId resp st))) other
           = map_of (pendingPermissionRequests st) other \<and>
         filter (\<lambda>e. fst e = other) (emitted st (snd (resolvePermissionRequest requestId resp st))) = [] \<and>
         map_of (pendingPermissionRequests (createCanUseTool ws requestId now sentAt tool inp sugg tuid st)) other
           = map_of (pendingPermissionRequests st) other \<and>
         map_of (pendingPermissionRequests (createCanUseTool ws requestId now sentAt tool inp sugg tuid st)) requestId
           = Some \<lparr>toolName = tool, input = inp, suggestions = sugg, toolUseID = tuid, timestamp = now\<rparr> \<and>
         (requestId \<notin> set (requests_of_query q evs) \<longrightarrow>
            unresolved_of_session q (evs @ [CanUseTool q ws requestId now sentAt tool inp sugg tuid])
              = unresolved_of_session q evs @ [requestId]) \<and>
         unresolved_of_session q (evs @ [PermissionResponse requestId resp])
           = filter (\<lambda>r. r \<noteq> requestId) (unresolved_of_session q evs)"
proof -
  let ?P = "pendingPermissionRequests (arbiter_run evs)"
  let ?call = "CanUseTool q ws requestId now sentAt tool inp sugg tuid"
  have by_id:
    "map_of (pendingPermissionRequests (snd (resolvePermissionRequest requestId resp st))) other
           = map_of (pendingPermissionRequests st) other \<and>
         filter (\<lambda>e. fst e = other) (emitted st (snd (resolvePermissionRequest requestId resp st))) = [] \<and>
         map_of (pendingPermissionRequests (createCanUseTool ws requestId now sentAt tool inp sugg tuid st)) other
           = map_of (pendingPermissionRequests st) other \<and>
         map_of (pendingPermissionRequests (createCanUseTool ws requestId now sentAt tool inp sugg tuid st)) requestId
           = Some \<lparr>toolName = tool, input = inp, suggestions = sugg, toolUseID = tuid, timestamp = now\<rparr>"
    using assms
    by (auto simp: resolvePermissionRequest_def emitted_def Let_def createCanUseTool_def
        registerPermissionRequest_def update_conv' split: option.splits)
  have reg: "unresolved_of_session q (evs @ [?call]) = unresolved_of_session q evs @ [requestId]"
    if fresh: "requestId \<notin> set (requests_of_query q evs)"
  proof -
    have lk: "map_of (pendingPermissionRequests (arbiter_run (evs @ [?call]))) r
                = (if r = requestId
                   then Some \<lparr>toolName = tool, input = inp, suggestions = sugg,
                              toolUseID = tuid, timestamp = now\<rparr>
                   else map_of ?P r)" for r
      by (simp add: arbiter_run_snoc createCanUseTool_def registerPermissionRequest_def
          Let_def update_conv')
    have same: "filter (\<lambda>r. map_of (pendingPermissionRequests (arbiter_run (evs @ [?call]))) r \<noteq> None)
                  (requests_of_query q evs)
                = filter (\<lambda>r. map_of ?P r \<noteq> None) (requests_of_query q evs)"
      using fresh by (intro filter_cong) (auto simp: lk)
    have last: "filter (\<lambda>r. map_of (pendingPermissionRequests (arbiter_run (evs @ [?call]))) r \<noteq> None)
                  [requestId] = [requestId]"
      by (simp only: lk) simp
    have "unresolved_of_session q (evs @ [?call])
            = filter (\<lambda>r. map_of (pendingPermissionRequests (arbiter_run (evs @ [?call]))) r \<noteq> None)
                (requests_of_query q evs @ [requestId])"
      unfolding unresolved_of_session_def requests_of_query_append by simp
    also have "\<dots> = filter (\<lambda>r. map_of ?P r \<noteq> None) (requests_of_query q evs) @ [requestId]"
      unfolding filter_append same last ..
    finally show ?thesis
      unfolding unresolved_of_session_def .
  qed
  have lk': "(map_of (pendingPermissionRequests (arbiter_run (evs @ [PermissionResponse requestId resp]))) r \<noteq> None)
               = (r \<noteq> requestId \<and> map_of ?P r \<noteq> None)" for r
    by (cases "map_of ?P requestId")
       (auto simp: arbiter_run_snoc resolvePermissionRequest_def Let_def delete_conv')
  have res: "unresolved_of_session q (evs @ [PermissionResponse requestId resp])
               = filter (\<lambda>r. r \<noteq> requestId) (unresolved_of_session q evs)"
    unfolding unresolved_of_session_def requests_of_query_append lk'
    by (simp add: conj_commute)
  from by_id reg res show ?thesis by blast
qed

theorem requests_do_not_interfere_witness:
  "''perm_200000_b'' \<noteq> ''perm_1000_a'' \<and>
   map_of (pendingPermissionRequests (snd (resolvePermissionRequest ''perm_1000_a'' allow_response two_pending)))
     ''perm_200000_b''
   = Some \<lparr>toolName = ''Bash'', input = ''{command:ls}'', suggestions = None,
           toolUseID = ''toolu_2'', timestamp = 200000\<rparr> \<and>
   filter (\<lambda>e. fst e = ''perm_200000_b'')
     (emitted two_pending (snd (resolvePermissionRequest ''perm_1000_a'' allow_response two_pending))) = [] \<and>
   ''perm_1000_a'' \<noteq> ''perm_200000_b'' \<and>
   map_of (pendingPermissionRequests two_pending) ''perm_1000_a''
   = map_of (pendingPermissionRequests one_pending) ''perm_1000_a'' \<and>
   map_of (pendingPermissionRequests two_pending) ''perm_200000_b''
   = Some \<lparr>toolName = ''Bash'', input = ''{command:ls}'', suggestions = None,
           toolUseID = ''toolu_2'', timestamp = 200000\<rparr> \<and>
   ''perm_200000_b'' \<notin> set (requests_of_query 7 (take 1 two_requests_one_query)) \<and>
   unresolved_of_session 7 (take 1 two_requests_one_query) = [''perm_1000_a''] \<and>
   unresolved_of_session 7 two_requests_one_query = [''perm_1000_a'', ''perm_200000_b''] \<and>
   unresolved_of_session 7 (two_requests_one_query @ [PermissionResponse ''perm_1000_a'' allow_response])
   = [''perm_200000_b'']"
proof -
  let ?first = "CanUseTool 7 1 ''perm_1000_a'' 1000 1000 ''Write'' ''{file_path:/x}'' None ''toolu_1''"
  let ?second = "CanUseTool 7 1 ''perm_200000_b'' 200000 200000 ''Bash'' ''{command:ls}'' None ''toolu_2''"
  have ne: "''perm_200000_b'' \<noteq> ''perm_1000_a''" by simp
  have ne': "''perm_1000_a'' \<noteq> ''perm_200000_b''" by simp
  have tk: "take 1 two_requests_one_query = [?first]"
    by (simp add: two_requests_one_query_def)
  have both: "two_requests_one_query = [?first] @ [?second]"
    by (simp add: two_requests_one_query_def)
  have fresh: "''perm_200000_b'' \<notin> set (requests_of_query 7 [?first])" by simp
  have one: "unresolved_of_session 7 [?first] = [''perm_1000_a'']"
    by (simp add: unresolved_of_session_def arbiter_run_def createCanUseTool_def
        registerPermissionRequest_def arbiter_init_def Let_def)
  note resolved = requests_do_not_interfere [OF ne, of allow_response two_pending]
  note registered = requests_do_not_interfere [OF ne', of allow_response one_pending
      1 200000 200000 "''Bash''" "''{command:ls}''" None "''toolu_2''" 7 "[?first]"]
  note answered = requests_do_not_interfere [OF ne, of allow_response two_pending
      1 1000 1000 "''Write''" "''{file_path:/x}''" None "''toolu_1''" 7 two_requests_one_query]
  from registered
  have r1: "map_of (pendingPermissionRequests two_pending) ''perm_1000_a''
              = map_of (pendingPermissionRequests one_pending) ''perm_1000_a''"
    and r2: "map_of (pendingPermissionRequests two_pending) ''perm_200000_b''
              = Some \<lparr>toolName = ''Bash'', input = ''{command:ls}'', suggestions = None,
                      toolUseID = ''toolu_2'', timestamp = 200000\<rparr>"
    unfolding two_pending_def by blast+
  from registered fresh
  have "unresolved_of_session 7 ([?first] @ [?second]) = unresolved_of_session 7 [?first] @ [''perm_200000_b'']"
    by blast
  then have two: "unresolved_of_session 7 two_requests_one_query = [''perm_1000_a'', ''perm_200000_b'']"
    unfolding both one by simp
  from answered
  have "unresolved_of_session 7 (two_requests_one_query @ [PermissionResponse ''perm_1000_a'' allow_response])
          = filter (\<lambda>r. r \<noteq> ''perm_1000_a'') (unresolved_of_session 7 two_requests_one_query)"
    by blast
  then have rest: "unresolved_of_session 7 (two_requests_one_query @ [PermissionResponse ''perm_1000_a'' allow_response])
          = [''perm_200000_b'']"
    unfolding two by simp
  from resolved have a: "map_of (pendingPermissionRequests (snd (resolvePermissionRequest ''perm_1000_a'' allow_response two_pending)))
     ''perm_200000_b'' = map_of (pendingPermissionRequests two_pending) ''perm_200000_b''"
    and b: "filter (\<lambda>e. fst e = ''perm_200000_b'')
     (emitted two_pending (snd (resolvePermissionRequest ''perm_1000_a'' allow_response two_pending))) = []"
    by blast+
  from a b r1 r2 ne ne' fresh one two rest show ?thesis
    unfolding tk by simp
qed

section \<open>Eviction in the zustand store\<close>

lemma map_of_fold_delete:
  "map_of (fold AList.delete xs al) k = (if k \<in> set xs then None else map_of al k)"
proof (induction xs arbitrary: al)
  case Nil
  then show ?case by simp
next
  case (Cons x xs)
  show ?case by (simp add: Cons.IH delete_conv')
qed

lemma length_delete_key:
  assumes "distinct (map fst al)" and "k \<in> fst ` set al"
  shows "length (AList.delete k al) = length al - 1"
proof -
  have "length (AList.delete k al) = length (map fst (AList.delete k al))" by simp
  also have "\<dots> = length (removeAll k (map fst al))" by (simp only: delete_keys)
  also have "\<dots> = length (remove1 k (map fst al))"
    using assms(1) by (simp add: distinct_remove1_removeAll)
  also have "\<dots> = length al - 1"
    using assms(2) by (simp add: length_remove1)
  finally show ?thesis .
qed

lemma length_fold_delete:
  "distinct (map fst al) \<Longrightarrow> distinct xs \<Longrightarrow> set xs \<subseteq> fst ` set al \<Longrightarrow>
   length (fold AList.delete xs al) = length al - length xs"
proof (induction xs arbitrary: al)
  case Nil
  then show ?case by simp
next
  case (Cons x xs)
  have d': "distinct (map fst (AList.delete x al))"
    using Cons.prems(1) by (rule distinct_delete)
  have "fst ` set (AList.delete x al) = fst ` set al - {x}"
    by (metis delete_keys set_map set_removeAll)
  with Cons.prems have sub: "set xs \<subseteq> fst ` set (AList.delete x al)" by auto
  have "length (fold AList.delete (x # xs) al) = length (AList.delete x al) - length xs"
    using Cons.IH[OF d' _ sub] Cons.prems(2) by simp
  also have "\<dots> = length al - 1 - length xs"
    using length_delete_key[OF Cons.prems(1)] Cons.prems(3) by simp
  finally show ?case by simp
qed

text \<open>
  The first loop of \<open>_evictIfNeeded\<close> collects the first \<open>n - 10\<close> ids of \<open>accessOrder\<close>
  that are not the viewed one.
\<close>

lemma collect_toEvict_take:
  "length acc < n - MAX_CACHED_SESSIONS \<Longrightarrow>
   collect_toEvict v n order acc
     = acc @ take (n - MAX_CACHED_SESSIONS - length acc) (filter (\<lambda>i. Some i \<noteq> v) order)"
proof (induction order arbitrary: acc)
  case Nil
  then show ?case by simp
next
  case (Cons sid rest)
  show ?case
  proof (cases "Some sid \<noteq> v")
    case False
    then show ?thesis using Cons by simp
  next
    case True
    show ?thesis
    proof (cases "int n - int (length (acc @ [sid])) \<le> int MAX_CACHED_SESSIONS")
      case stop: True
      with Cons.prems have "n - MAX_CACHED_SESSIONS - length acc = 1" by simp
      with True stop show ?thesis by simp
    next
      case go: False
      then have lt: "length (acc @ [sid]) < n - MAX_CACHED_SESSIONS" by simp
      have "n - MAX_CACHED_SESSIONS - length acc = Suc (n - MAX_CACHED_SESSIONS - length (acc @ [sid]))"
        using lt by simp
      with True go Cons.IH[OF lt] show ?thesis by simp
    qed
  qed
qed

lemma store_evict_toEvict:
  assumes "length (sessionData st) > MAX_CACHED_SESSIONS"
  shows "sessionData (store_evictIfNeeded st)
           = fold AList.delete
               (take (length (sessionData st) - MAX_CACHED_SESSIONS)
                  (filter (\<lambda>i. Some i \<noteq> viewingSessionId st) (accessOrder st)))
               (sessionData st)"
proof -
  have "collect_toEvict (viewingSessionId st) (length (sessionData st)) (accessOrder st) []
          = take (length (sessionData st) - MAX_CACHED_SESSIONS)
                  (filter (\<lambda>i. Some i \<noteq> viewingSessionId st) (accessOrder st))"
    using collect_toEvict_take[of "[]" "length (sessionData st)"] assms by simp
  then show ?thesis
    using assms by (auto simp: store_evictIfNeeded_def Let_def)
qed

text \<open>The zustand store never evicts the viewed session.\<close>

lemma store_evict_keeps_viewed:
  assumes "viewingSessionId st = Some v"
  shows "map_of (sessionData (store_evictIfNeeded st)) v = map_of (sessionData st) v"
proof (cases "length (sessionData st) > MAX_CACHED_SESSIONS")
  case False
  then show ?thesis by (simp add: store_evictIfNeeded_def)
next
  case True
  have "v \<notin> set (take (length (sessionData st) - MAX_CACHED_SESSIONS)
                  (filter (\<lambda>i. Some i \<noteq> viewingSessionId st) (accessOrder st)))"
    using assms by (auto dest: in_set_takeD)
  then show ?thesis
    by (simp add: store_evict_toEvict[OF True] map_of_fold_delete)
qed

text \<open>On a well-formed store over the limit, eviction leaves exactly ten sessions.\<close>

lemma store_evict_bound:
  assumes wf: "store_wf st" and over: "length (sessionData st) > MAX_CACHED_SESSIONS"
  shows "length (sessionData (store_evictIfNeeded st)) = MAX_CACHED_SESSIONS"
proof -
  let ?n = "length (sessionData st)"
  let ?f = "filter (\<lambda>i. Some i \<noteq> viewingSessionId st) (accessOrder st)"
  let ?xs = "take (?n - MAX_CACHED_SESSIONS) ?f"
  from wf have d: "distinct (map fst (sessionData st))" and dord: "distinct (accessOrder st)"
    and s: "set (accessOrder st) = fst ` set (sessionData st)"
    by (simp_all add: store_wf_def)
  have "length (accessOrder st) = card (set (accessOrder st))"
    using dord by (simp add: distinct_card)
  also have "\<dots> = card (fst ` set (sessionData st))" by (simp add: s)
  also have "\<dots> = ?n" using d by (metis distinct_card length_map set_map)
  finally have lo: "length (accessOrder st) = ?n" .
  have "length (accessOrder st) \<le> Suc (length ?f)"
  proof (cases "viewingSessionId st")
    case None
    then show ?thesis by simp
  next
    case (Some v)
    have "?f = removeAll v (accessOrder st)"
      using Some by (simp add: removeAll_filter_not_eq) (metis)
    also have "\<dots> = remove1 v (accessOrder st)"
      using dord by (simp add: distinct_remove1_removeAll)
    finally have "length ?f = length (remove1 v (accessOrder st))" by simp
    then show ?thesis by (simp add: length_remove1) arith
  qed
  with lo over have lf: "?n - MAX_CACHED_SESSIONS \<le> length ?f"
    by (simp add: MAX_CACHED_SESSIONS_def)
  then have lx: "length ?xs = ?n - MAX_CACHED_SESSIONS" by simp
  have dx: "distinct ?xs" using dord by simp
  have sx: "set ?xs \<subseteq> fst ` set (sessionData st)"
    using s by (auto dest: in_set_takeD)
  have "length (sessionData (store_evictIfNeeded st)) = ?n - length ?xs"
    by (simp only: store_evict_toEvict[OF over] length_fold_delete[OF d dx sx])
  with lx over show ?thesis by simp
qed

text \<open>
  The loop counts every id it collects as one cached session less, cached or not. After a
  switch to a session that is never loaded, a store with eleven cached sessions evicts that
  id alone and keeps all eleven.
\<close>

lemma store_evict_counts_uncached_id:
  "length (sessionData (store_setSessionMessages ''s10'' [''m''] no_pagination 1000
             (store_switchSession (Some ''s9'')
               (fold (\<lambda>i. store_setSessionMessages i [''m''] no_pagination 1000) session_ids
                  (store_switchSession (Some ''a1'') store_init))))) = 11"
  by (simp add: session_ids_def store_setSessionMessages_def store_switchSession_def
      store_init_def store_updateAccessOrder_def store_evictIfNeeded_def truthy_def
      truthy_opt_def MAX_CACHED_SESSIONS_def Let_def no_pagination_def num_or_def
      bool_or_false_def)

section \<open>Reading back what was stored\<close>


text \<open>
  In the zustand store, when the keys of the cache are distinct and every cached session
  is listed in \<open>accessOrder\<close>, the eviction run by \<open>setSessionMessages\<close> stops before it
  reaches the id just stored: the entry is there when the call returns.
\<close>

lemma store_put_keeps_own_entry:
  assumes t: "truthy sessionId"
    and d: "distinct (map fst (sessionData st))"
    and tr: "fst ` set (sessionData st) \<subseteq> set (accessOrder st)"
  shows "map_of (sessionData (store_setSessionMessages sessionId msgs pg now st)) sessionId
           = Some \<lparr>messages = msgs,
                   pagination = \<lparr>offset = num_or (arg_offset pg) 0,
                                 hasMore = bool_or_false (arg_hasMore pg),
                                 total = num_or (arg_total pg) (int (length msgs))\<rparr>,
                   lastAccess = now\<rparr>"
proof -
  let ?e = "\<lparr>messages = msgs,
             pagination = \<lparr>offset = num_or (arg_offset pg) 0,
                           hasMore = bool_or_false (arg_hasMore pg),
                           total = num_or (arg_total pg) (int (length msgs))\<rparr>,
             lastAccess = now\<rparr>"
  let ?D = "AList.update sessionId ?e (sessionData st)"
  let ?pre = "filter (\<lambda>i. i \<noteq> sessionId) (accessOrder st)"
  let ?st2 = "store_updateAccessOrder sessionId (st\<lparr>sessionData := ?D\<rparr>)"
  let ?v = "viewingSessionId st"
  let ?n = "length ?D"
  have eq: "store_setSessionMessages sessionId msgs pg now st = store_evictIfNeeded ?st2"
    using t by (simp add: store_setSessionMessages_def)
  have sd: "sessionData ?st2 = ?D" and ao: "accessOrder ?st2 = ?pre @ [sessionId]"
    and vw: "viewingSessionId ?st2 = ?v"
    by (simp_all add: store_updateAccessOrder_def)
  have l2: "map_of ?D sessionId = Some ?e" by (simp add: update_conv')
  show ?thesis
  proof (cases "?n > MAX_CACHED_SESSIONS")
    case False
    then have "store_evictIfNeeded ?st2 = ?st2"
      by (simp add: store_evictIfNeeded_def sd)
    then show ?thesis unfolding eq by (simp add: sd l2)
  next
    case True
    have dD: "distinct (map fst ?D)" using d by (rule distinct_update)
    have keys: "fst ` set ?D = insert sessionId (fst ` set (sessionData st))"
      by (simp add: dom_update)
    let ?A = "fst ` set ?D - {sessionId}"
    have cardD: "card (fst ` set ?D) = ?n"
      using dD by (metis distinct_card length_map set_map)
    have inD: "sessionId \<in> fst ` set ?D" using keys by simp
    have "card ?A = card (fst ` set ?D) - 1"
      using inD by (simp add: card_Diff_singleton)
    then have "card ?A = ?n - 1"
      using cardD by simp
    let ?B = "{i \<in> ?A. Some i \<noteq> ?v}"
    have "?A \<subseteq> insert (the ?v) ?B"
    proof
      fix a assume a: "a \<in> ?A"
      show "a \<in> insert (the ?v) ?B"
      proof (cases "Some a = ?v")
        case True
        then have "a = the ?v" by (metis option.sel)
        then show ?thesis by simp
      next
        case False
        with a show ?thesis by simp
      qed
    qed
    then have "card ?A \<le> card (insert (the ?v) ?B)"
      by (intro card_mono) auto
    also have "\<dots> \<le> Suc (card ?B)" by (simp add: card_insert_le_m1 card_insert_if)
    finally have cB: "?n - 2 \<le> card ?B" using \<open>card ?A = ?n - 1\<close> by simp
    have "?B \<subseteq> set (filter (\<lambda>i. Some i \<noteq> ?v) ?pre)"
      using tr keys by auto
    then have "card ?B \<le> card (set (filter (\<lambda>i. Some i \<noteq> ?v) ?pre))"
      by (intro card_mono) auto
    also have "\<dots> \<le> length (filter (\<lambda>i. Some i \<noteq> ?v) ?pre)" by (rule card_length)
    finally have len: "?n - MAX_CACHED_SESSIONS \<le> length (filter (\<lambda>i. Some i \<noteq> ?v) ?pre)"
      using cB by (simp add: MAX_CACHED_SESSIONS_def)
    have tk: "take (?n - MAX_CACHED_SESSIONS) (filter (\<lambda>i. Some i \<noteq> ?v) (?pre @ [sessionId]))
            = take (?n - MAX_CACHED_SESSIONS) (filter (\<lambda>i. Some i \<noteq> ?v) ?pre)"
      using len by simp
    have "sessionId \<notin> set (take (?n - MAX_CACHED_SESSIONS) (filter (\<lambda>i. Some i \<noteq> ?v) ?pre))"
      by (auto dest: in_set_takeD)
    then have "map_of (sessionData (store_evictIfNeeded ?st2)) sessionId = Some ?e"
      using True by (simp add: store_evict_toEvict sd ao vw tk map_of_fold_delete l2 del: filter_append)
    then show ?thesis unfolding eq by simp
  qed
qed





section \<open>The store stays in step with its list of recent sessions\<close>

lemma keys_fold_delete:
  "fst ` set (fold AList.delete xs al) = fst ` set al - set xs"
proof (induction xs arbitrary: al)
  case Nil
  then show ?case by simp
next
  case (Cons x xs)
  have "fst ` set (AList.delete x al) = fst ` set al - {x}"
    by (metis delete_keys set_map set_removeAll)
  with Cons.IH[of "AList.delete x al"] show ?case by auto
qed

lemma distinct_fold_delete:
  "distinct (map fst al) \<Longrightarrow> distinct (map fst (fold AList.delete xs al))"
  by (induction xs arbitrary: al) (simp_all add: distinct_delete)

lemma fold_remove1_distinct:
  "distinct ys \<Longrightarrow> distinct (fold remove1 xs ys) \<and> set (fold remove1 xs ys) = set ys - set xs"
proof (induction xs arbitrary: ys)
  case Nil
  then show ?case by simp
next
  case (Cons x xs)
  from Cons.prems have "distinct (remove1 x ys)" and "set (remove1 x ys) = set ys - {x}"
    by simp_all
  with Cons.IH[of "remove1 x ys"] show ?case by auto
qed

lemma store_evictIfNeeded_tracked:
  assumes "store_tracked st"
  shows "store_tracked (store_evictIfNeeded st)"
proof -
  let ?xs = "collect_toEvict (viewingSessionId st) (length (sessionData st)) (accessOrder st) []"
  from assms have d: "distinct (map fst (sessionData st))" and o: "distinct (accessOrder st)"
    and s: "fst ` set (sessionData st) \<subseteq> set (accessOrder st)"
    by (simp_all add: store_tracked_def)
  have "store_tracked (st\<lparr>sessionData := fold AList.delete ?xs (sessionData st),
                          accessOrder := fold remove1 ?xs (accessOrder st)\<rparr>)"
    using s by (auto simp: store_tracked_def keys_fold_delete distinct_fold_delete[OF d]
        fold_remove1_distinct[OF o])
  with assms show ?thesis
    by (simp add: store_evictIfNeeded_def Let_def)
qed

lemma store_init_tracked: "store_tracked store_init"
  by (simp add: store_tracked_def store_init_def)

lemma store_updateAccessOrder_tracked:
  assumes "distinct (map fst (sessionData st))" and "distinct (accessOrder st)"
    and "fst ` set (sessionData st) \<subseteq> insert sessionId (set (accessOrder st))"
  shows "store_tracked (store_updateAccessOrder sessionId st)"
  using assms by (auto simp: store_tracked_def store_updateAccessOrder_def)

lemma store_setSessionMessages_tracked:
  assumes "store_tracked st"
  shows "store_tracked (store_setSessionMessages sessionId msgs pg now st)"
proof (cases "truthy sessionId")
  case False
  with assms show ?thesis by (simp add: store_setSessionMessages_def)
next
  case True
  from assms have d: "distinct (map fst (sessionData st))" and o: "distinct (accessOrder st)"
    and s: "fst ` set (sessionData st) \<subseteq> set (accessOrder st)"
    by (simp_all add: store_tracked_def)
  let ?e = "\<lparr>messages = msgs,
             pagination = \<lparr>offset = num_or (arg_offset pg) 0,
                           hasMore = bool_or_false (arg_hasMore pg),
                           total = num_or (arg_total pg) (int (length msgs))\<rparr>,
             lastAccess = now\<rparr>"
  let ?st1 = "st\<lparr>sessionData := AList.update sessionId ?e (sessionData st)\<rparr>"
  have d1: "distinct (map fst (sessionData ?st1))"
    using d by (simp add: distinct_update)
  have o1: "distinct (accessOrder ?st1)" using o by simp
  have "fst ` set (sessionData ?st1) = insert sessionId (fst ` set (sessionData st))"
    by (simp add: dom_update)
  with s have s1: "fst ` set (sessionData ?st1) \<subseteq> insert sessionId (set (accessOrder ?st1))"
    by auto
  have "store_tracked (store_updateAccessOrder sessionId ?st1)"
    using d1 o1 s1 by (rule store_updateAccessOrder_tracked)
  then have "store_tracked (store_evictIfNeeded (store_updateAccessOrder sessionId ?st1))"
    by (rule store_evictIfNeeded_tracked)
  with True show ?thesis by (simp add: store_setSessionMessages_def)
qed

lemma store_switchSession_tracked:
  assumes "store_tracked st"
  shows "store_tracked (store_switchSession sessionId st)"
proof -
  from assms have d: "distinct (map fst (sessionData st))" and o: "distinct (accessOrder st)"
    and s: "fst ` set (sessionData st) \<subseteq> set (accessOrder st)"
    by (simp_all add: store_tracked_def)
  show ?thesis
  proof (cases "truthy_opt sessionId")
    case True
    let ?st1 = "st\<lparr>viewingSessionId := sessionId\<rparr>"
    have d1: "distinct (map fst (sessionData ?st1))" using d by simp
    have o1: "distinct (accessOrder ?st1)" using o by simp
    have s1: "fst ` set (sessionData ?st1) \<subseteq> insert (the sessionId) (set (accessOrder ?st1))"
      using s by auto
    have "store_tracked (store_updateAccessOrder (the sessionId) ?st1)"
      using d1 o1 s1 by (rule store_updateAccessOrder_tracked)
    with True show ?thesis by (simp add: store_switchSession_def Let_def)
  next
    case False
    with assms show ?thesis
      by (simp add: store_switchSession_def Let_def store_tracked_def)
  qed
qed

lemma store_tracked_read_back:
  assumes "store_tracked st" and "truthy sessionId"
  shows "getSessionMessages sessionId (store_setSessionMessages sessionId msgs pg now st) = msgs"
  using assms
  by (simp add: getSessionMessages_def store_put_keeps_own_entry store_tracked_def)

end
